theory Spec2Isabelle
  imports Main
begin

section \<open>The tabulator of sourceutils-cxx (tabulator/tabulator.h)\<close>

text \<open>
  The header renders several texts side by side as left-aligned, word-wrapped columns.
  This theory embeds its data and functions and proves properties of them.

  Conventions of the embedding.
  \<^item> A \<^verbatim>\<open>column\<close> holds the pointer \<^verbatim>\<open>p\<close>, the length \<^verbatim>\<open>size\<close> and the \<^verbatim>\<open>width\<close>.
    The model keeps the \<^verbatim>\<open>size\<close> characters that \<^verbatim>\<open>p\<close> points to as the list \<open>p c\<close>, so
    \<^verbatim>\<open>size\<close> is \<open>length (p c)\<close>. Both constructors leave a NUL terminator at index
    \<^verbatim>\<open>size\<close>; the \<^verbatim>\<open>const char *\<close> constructor takes \<^verbatim>\<open>size\<close> from \<^verbatim>\<open>strlen\<close>, so its text
    has no NUL, while the \<^verbatim>\<open>std::string\<close> constructor takes \<^verbatim>\<open>s.size()\<close>, so its text may
    hold NUL characters before the terminator. \<open>char_at\<close> is the read \<^verbatim>\<open>c.p[i]\<close>: a
    character of the text below \<^verbatim>\<open>size\<close>, the terminator at \<^verbatim>\<open>size\<close>. The program reads no
    index above \<^verbatim>\<open>size\<close>, since \<^verbatim>\<open>cp\<close> stays at most \<^verbatim>\<open>size\<close> (\<open>emit_col_cp\<close>) and the
    scan of \<^verbatim>\<open>nextWordFits\<close> stops at the first NUL; there \<open>char_at\<close> is NUL as well.
  \<^item> \<^verbatim>\<open>size_t\<close> has 64 bits: \<open>SIZE_MAX\<close> is \<open>2 ^ 64 - 1\<close>. Its values are natural numbers.
    The counters \<^verbatim>\<open>cp\<close>, \<^verbatim>\<open>lp\<close>, \<^verbatim>\<open>i\<close>, \<^verbatim>\<open>l\<close> and \<^verbatim>\<open>col\<close> advance by one and stay at most
    a text length, a width or the number of columns, so they cannot wrap. The counter of
    \<^verbatim>\<open>switch_col\<close> advances by 8 when the fill character is a tab and can pass
    \<^verbatim>\<open>SIZE_MAX\<close>: its addition is written modulo \<open>2 ^ 64\<close>, and since the loop then may
    never end, \<open>switch_col_loop\<close> returns an option, \<open>None\<close> when it does not return.
    The functions that call it pass \<open>None\<close> on.
  \<^item> The stream is the list of characters written to it; \<^verbatim>\<open>os.put(ch)\<close> appends one
    character. \<^verbatim>\<open>isblank\<close> is the one of the "C" locale: space and horizontal tab.
  \<^item> The template parameter pack \<^verbatim>\<open>cols...\<close> is a list of columns, and the two
    \<^verbatim>\<open>std::array\<close>s of \<^verbatim>\<open>tabulate\<close> are lists of its length.
\<close>

subsection \<open>Data\<close>

record column =
  p :: string
  width :: nat

record colstate =
  cp :: nat
  lp :: nat

definition NUL :: char where
  "NUL = CHR 0x00"

definition newline :: char where
  "newline = CHR 0x0A"

definition tab :: char where
  "tab = CHR 0x09"

definition SIZE_MAX :: nat where
  "SIZE_MAX = 2 ^ 64 - 1"

definition char_at :: "column \<Rightarrow> nat \<Rightarrow> char" where
  "char_at c i = (if i < length (p c) then p c ! i else NUL)"

subsection \<open>The cursor of one column: \<^verbatim>\<open>colstate\<close>\<close>

definition end_col :: "colstate \<Rightarrow> column \<Rightarrow> bool" where
  "end_col state c = (length (p c) \<le> cp state)"

definition consume :: "colstate \<Rightarrow> column \<Rightarrow> char \<times> colstate" where
  "consume state c =
     (if end_col state c then (NUL, state)
      else (char_at c (cp state), state\<lparr>cp := cp state + 1\<rparr>))"

definition emit :: "colstate \<Rightarrow> string \<Rightarrow> char \<Rightarrow> string \<times> colstate" where
  "emit state os ch = (os @ [ch], state\<lparr>lp := lp state + 1\<rparr>)"

definition breakLine :: "colstate \<Rightarrow> colstate" where
  "breakLine state = state\<lparr>lp := 0\<rparr>"

definition isws :: "char \<Rightarrow> bool" where
  "isws ch = (ch = CHR '' '' \<or> ch = tab)"

text \<open>The \<^verbatim>\<open>for\<close> loop of \<^verbatim>\<open>nextWordFits\<close>, with its two counters \<^verbatim>\<open>i\<close> and \<^verbatim>\<open>l\<close>.\<close>

function nextWordFits_loop :: "column \<Rightarrow> nat \<Rightarrow> nat \<Rightarrow> bool" where
  "nextWordFits_loop c i l =
     (if char_at c i \<noteq> NUL \<and> l < width c
      then (if isws (char_at c i) then True else nextWordFits_loop c (i + 1) (l + 1))
      else l < width c)"
  by pat_completeness auto
termination
  by (relation "measure (\<lambda>(c, i, l). width c - l)") auto

declare nextWordFits_loop.simps [simp del]

definition nextWordFits :: "colstate \<Rightarrow> column \<Rightarrow> bool" where
  "nextWordFits state c = nextWordFits_loop c (cp state) (lp state)"

definition linebreak :: "colstate \<Rightarrow> char \<Rightarrow> column \<Rightarrow> bool" where
  "linebreak state ch c = (ch = newline \<or> (isws ch \<and> \<not> nextWordFits state c))"

subsection \<open>Emitting one column of one line\<close>

definition switch_inc :: "char \<Rightarrow> nat" where
  "switch_inc fill = (if fill = tab then 8 else 1)"

text \<open>
  The \<^verbatim>\<open>for\<close> loop of \<^verbatim>\<open>switch_col\<close>; \<^verbatim>\<open>i += inc\<close> is an addition of \<^verbatim>\<open>size_t\<close>.
\<close>

partial_function (option) switch_col_loop ::
  "string \<Rightarrow> nat \<Rightarrow> nat \<Rightarrow> char \<Rightarrow> string option" where
  "switch_col_loop os i colwidth fill =
     (if i < colwidth
      then switch_col_loop (os @ [fill]) ((i + switch_inc fill) mod (SIZE_MAX + 1)) colwidth fill
      else Some os)"

definition switch_col ::
  "string \<Rightarrow> colstate \<Rightarrow> nat \<Rightarrow> char \<Rightarrow> string \<Rightarrow> string option" where
  "switch_col os state colwidth fill sep =
     (case switch_col_loop os (lp state) colwidth fill of
        None \<Rightarrow> None
      | Some os1 \<Rightarrow> Some (os1 @ sep))"

function emit_col :: "string \<Rightarrow> colstate \<Rightarrow> column \<Rightarrow> string \<times> colstate" where
  "emit_col os state c =
     (let (ch, state1) = consume state c in
      if ch = NUL then (os, state1)
      else if \<not> linebreak state1 ch c
        then (let (os2, state2) = emit state1 os ch in emit_col os2 state2 c)
        else (os, state1))"
  by pat_completeness auto
termination
  by (relation "measure (\<lambda>(os, state, c). length (p c) - cp state)")
     (auto simp: consume_def emit_def end_col_def split: if_splits)

declare emit_col.simps [simp del]

subsection \<open>Facts about \<^verbatim>\<open>emit_col\<close>\<close>

text \<open>
  \<open>emits state c\<close> says that the next iteration of the loop of \<^verbatim>\<open>emit_col\<close> writes a
  character: the text is not exhausted, the character consumed is not NUL, and it is
  no line break.
\<close>

definition emits :: "colstate \<Rightarrow> column \<Rightarrow> bool" where
  "emits state c =
     (\<not> end_col state c \<and> char_at c (cp state) \<noteq> NUL \<and>
      \<not> linebreak (state\<lparr>cp := cp state + 1\<rparr>) (char_at c (cp state)) c)"

lemma emit_col_end: "end_col state c \<Longrightarrow> emit_col os state c = (os, state)"
  by (simp add: emit_col.simps consume_def)

lemma emit_col_stop:
  "\<not> end_col state c \<Longrightarrow> \<not> emits state c \<Longrightarrow>
   emit_col os state c = (os, state\<lparr>cp := cp state + 1\<rparr>)"
  by (subst emit_col.simps) (auto simp add: consume_def emits_def)

lemma emit_col_emits:
  "emits state c \<Longrightarrow>
   emit_col os state c =
   emit_col (os @ [char_at c (cp state)]) (state\<lparr>cp := cp state + 1, lp := lp state + 1\<rparr>) c"
  by (subst emit_col.simps) (simp add: consume_def emits_def emit_def)

lemma emit_col_induct [consumes 0, case_names ended stop emits]:
  assumes "\<And>os state c. end_col state c \<Longrightarrow> P os state c"
    and "\<And>os state c. \<not> end_col state c \<Longrightarrow> \<not> emits state c \<Longrightarrow> P os state c"
    and "\<And>os state c. emits state c \<Longrightarrow>
           P (os @ [char_at c (cp state)]) (state\<lparr>cp := cp state + 1, lp := lp state + 1\<rparr>) c \<Longrightarrow>
           P os state c"
  shows "P os state c"
proof (induction os state c rule: emit_col.induct)
  case (1 os state c)
  show ?case
  proof (cases "end_col state c")
    case True
    then show ?thesis by (rule assms(1))
  next
    case False
    show ?thesis
    proof (cases "emits state c")
      case True
      have "P (os @ [char_at c (cp state)]) (state\<lparr>cp := cp state + 1, lp := lp state + 1\<rparr>) c"
        using True False "1.IH"
        by (auto simp add: consume_def emits_def emit_def)
      with True show ?thesis by (rule assms(3))
    next
      case F2: False
      with False show ?thesis by (rule assms(2))
    qed
  qed
qed

lemma emit_col_append:
  "emit_col (os0 @ os) state c = (os0 @ fst (emit_col os state c), snd (emit_col os state c))"
proof (induction os state c arbitrary: os0 rule: emit_col_induct)
  case (ended os state c)
  then show ?case by (simp add: emit_col_end)
next
  case (stop os state c)
  then show ?case by (simp add: emit_col_stop)
next
  case (emits os state c)
  then show ?case by (simp add: emit_col_emits)
qed

lemma emit_col_os:
  "emit_col os state c = (os @ fst (emit_col [] state c), snd (emit_col [] state c))"
  using emit_col_append[of os "[]" state c] by simp

lemma emit_col_cp:
  "cp state \<le> cp (snd (emit_col os state c)) \<and>
   (\<not> end_col state c \<longrightarrow> cp state < cp (snd (emit_col os state c))) \<and>
   (cp state \<le> length (p c) \<longrightarrow> cp (snd (emit_col os state c)) \<le> length (p c))"
proof (induction os state c rule: emit_col_induct)
  case (ended os state c)
  then show ?case by (simp add: emit_col_end)
next
  case (stop os state c)
  then show ?case by (simp add: emit_col_stop end_col_def)
next
  case (emits os state c)
  then show ?case by (auto simp add: emit_col_emits emits_def end_col_def)
qed

subsection \<open>One output line, and the loop of \<^verbatim>\<open>tabulate\<close>\<close>

text \<open>
  \<open>col_step c state\<close> is the cursor of column \<open>c\<close> after one output line: \<^verbatim>\<open>emit_col\<close>
  followed by \<^verbatim>\<open>breakLine\<close>. The cursor does not depend on the stream.
\<close>

definition col_step :: "column \<Rightarrow> colstate \<Rightarrow> colstate" where
  "col_step c state = breakLine (snd (emit_col [] state c))"

text \<open>
  The inner \<^verbatim>\<open>for\<close> loop of \<^verbatim>\<open>tabulate\<close> over the column index \<^verbatim>\<open>col\<close>; \<open>length c\<close> is
  \<^verbatim>\<open>sizeof...(cols)\<close>. When \<^verbatim>\<open>switch_col\<close> does not return, neither does the loop.
\<close>

function line_loop ::
  "string \<Rightarrow> string \<Rightarrow> char \<Rightarrow> column list \<Rightarrow> nat \<Rightarrow> colstate list
   \<Rightarrow> (string \<times> colstate list) option" where
  "line_loop os sep fill c col state =
     (if col < length c then
        (let (os1, state1) = emit_col os (state ! col) (c ! col) in
         case (if col + 1 < length c
               then switch_col os1 state1 (width (c ! col)) fill sep else Some os1) of
           None \<Rightarrow> None
         | Some os2 \<Rightarrow> line_loop os2 sep fill c (col + 1) (state[col := breakLine state1]))
      else Some (os, state))"
  by pat_completeness auto
termination
  by (relation "measure (\<lambda>(os, sep, fill, c, col, state). length c - col)") auto

declare line_loop.simps [simp del]

text \<open>
  \<^verbatim>\<open>is_unconsumed\<close> scans the indices below \<^verbatim>\<open>N\<close>, the common length of the two arrays
  (the shorter length, should the two lists differ, which \<^verbatim>\<open>tabulate\<close> rules out).
\<close>

definition is_unconsumed :: "colstate list \<Rightarrow> column list \<Rightarrow> bool" where
  "is_unconsumed state c =
     list_ex (\<lambda>i. \<not> end_col (state ! i) (c ! i)) [0..<min (length state) (length c)]"

text \<open>The body of the outer loop: one line, then the line terminator.\<close>

definition tab_round ::
  "string \<Rightarrow> string \<Rightarrow> char \<Rightarrow> column list \<Rightarrow> colstate list
   \<Rightarrow> (string \<times> colstate list) option" where
  "tab_round os sep fill c state =
     (case line_loop os sep fill c 0 state of
        None \<Rightarrow> None
      | Some (os1, state1) \<Rightarrow> Some (os1 @ [newline], state1))"

lemma col_step_cp:
  "cp state \<le> cp (col_step c state) \<and>
   (\<not> end_col state c \<longrightarrow> cp state < cp (col_step c state))"
  using emit_col_cp[of state "[]" c] by (simp add: col_step_def breakLine_def)

lemma line_loop_state:
  "line_loop os sep fill c col state = Some (os', state') \<Longrightarrow>
   length state' = length state \<and>
   (\<forall>i<length state. state' ! i =
      (if col \<le> i \<and> i < length c then col_step (c ! i) (state ! i) else state ! i))"
proof (induction os sep fill c col state rule: line_loop.induct)
  case (1 os sep fill c col state)
  show ?case
  proof (cases "col < length c")
    case True
    obtain os1 state1 where e: "emit_col os (state ! col) (c ! col) = (os1, state1)"
      by (cases "emit_col os (state ! col) (c ! col)")
    have s1: "breakLine state1 = col_step (c ! col) (state ! col)"
      using e emit_col_os[of os "state ! col" "c ! col"] by (simp add: col_step_def)
    let ?sw = "if col + 1 < length c
               then switch_col os1 state1 (width (c ! col)) fill sep else Some os1"
    from "1.prems" True e obtain os2 where sw: "?sw = Some os2"
      and r: "line_loop os2 sep fill c (col + 1) (state[col := breakLine state1]) = Some (os', state')"
      by (subst (asm) line_loop.simps) (auto split: option.splits)
    have ih: "length state' = length (state[col := breakLine state1]) \<and>
      (\<forall>i<length (state[col := breakLine state1]). state' ! i =
        (if col + 1 \<le> i \<and> i < length c
         then col_step (c ! i) (state[col := breakLine state1] ! i)
         else state[col := breakLine state1] ! i))"
      by (rule "1.IH"[OF True e[symmetric] refl sw r])
    show ?thesis
    proof (intro conjI allI impI)
      show "length state' = length state" using ih by simp
      fix i assume i: "i < length state"
      show "state' ! i =
        (if col \<le> i \<and> i < length c then col_step (c ! i) (state ! i) else state ! i)"
        using ih i True s1 by (cases "i = col") auto
    qed
  next
    case False
    then show ?thesis using "1.prems" by (subst (asm) line_loop.simps) auto
  qed
qed

lemma tab_round_state:
  assumes "tab_round os sep fill c state = Some (os1, state1)"
  shows "length state1 = length state"
    and "i < length state \<Longrightarrow> i < length c \<Longrightarrow> state1 ! i = col_step (c ! i) (state ! i)"
proof -
  from assms obtain os0 where l: "line_loop os sep fill c 0 state = Some (os0, state1)"
    by (auto simp: tab_round_def split: option.splits)
  from line_loop_state[OF l] show "length state1 = length state" by simp
  from line_loop_state[OF l]
  show "i < length state \<Longrightarrow> i < length c \<Longrightarrow> state1 ! i = col_step (c ! i) (state ! i)"
    by simp
qed

text \<open>The characters not yet consumed, over all columns: the measure of the outer loop.\<close>

definition remaining :: "column list \<Rightarrow> colstate list \<Rightarrow> nat" where
  "remaining c state =
     (\<Sum>i<min (length state) (length c). length (p (c ! i)) - cp (state ! i))"

lemma tab_round_remaining:
  assumes "is_unconsumed state c" and r: "tab_round os sep fill c state = Some (os1, state1)"
  shows "remaining c state1 < remaining c state"
proof -
  have len: "length state1 = length state"
    by (rule tab_round_state(1)[OF r])
  have nth: "state1 ! i = col_step (c ! i) (state ! i)" if "i < min (length state) (length c)" for i
    using that tab_round_state(2)[OF r, of i] by simp
  obtain k where k: "k < min (length state) (length c)" "\<not> end_col (state ! k) (c ! k)"
    using assms(1) by (auto simp: is_unconsumed_def list_ex_iff)
  show ?thesis
    unfolding remaining_def len
  proof (rule sum_strict_mono_ex1)
    show "\<forall>i\<in>{..<min (length state) (length c)}.
            length (p (c ! i)) - cp (state1 ! i) \<le> length (p (c ! i)) - cp (state ! i)"
      using col_step_cp by (auto simp: nth intro: diff_le_mono2)
    show "\<exists>i\<in>{..<min (length state) (length c)}.
            length (p (c ! i)) - cp (state1 ! i) < length (p (c ! i)) - cp (state ! i)"
    proof (intro bexI[of _ k])
      have "cp (state ! k) < cp (col_step (c ! k) (state ! k))"
        using col_step_cp k(2) by blast
      moreover have "cp (state ! k) < length (p (c ! k))"
        using k(2) by (simp add: end_col_def)
      ultimately show "length (p (c ! k)) - cp (state1 ! k) < length (p (c ! k)) - cp (state ! k)"
        using k(1) by (simp add: nth diff_less_mono2)
      show "k \<in> {..<min (length state) (length c)}" using k(1) by simp
    qed
  qed simp
qed

text \<open>
  The outer loop of \<^verbatim>\<open>tabulate\<close>. It ends once every round returns; a round that does
  not return leaves the loop without a result.
\<close>

function tab_loop ::
  "string \<Rightarrow> string \<Rightarrow> char \<Rightarrow> column list \<Rightarrow> colstate list \<Rightarrow> string option" where
  "tab_loop os sep fill c state =
     (if is_unconsumed state c
      then (case tab_round os sep fill c state of
              None \<Rightarrow> None
            | Some (os1, state1) \<Rightarrow> tab_loop os1 sep fill c state1)
      else Some os)"
  by pat_completeness auto
termination
proof (relation "measure (\<lambda>(os, sep, fill, c, state). remaining c state)")
  show "wf (measure (\<lambda>(os, sep, fill, c, state). remaining c state))" by simp
next
  fix os sep fill c state x2 x y
  assume "is_unconsumed state c" "tab_round os sep fill c state = Some x2" "(x, y) = x2"
  then show "((x, sep, fill, c, y), (os, sep, fill, c, state))
             \<in> measure (\<lambda>(os, sep, fill, c, state). remaining c state)"
    using tab_round_remaining[of state c os sep fill x y] by simp
qed

declare tab_loop.simps [simp del]

text \<open>
  \<^verbatim>\<open>tabulate\<close>: the array \<^verbatim>\<open>state\<close> holds one value-initialised cursor (\<open>start_state\<close>) for
  each column.
\<close>

definition start_state :: colstate where
  "start_state = \<lparr>cp = 0, lp = 0\<rparr>"

definition tabulate :: "string \<Rightarrow> string \<Rightarrow> char \<Rightarrow> column list \<Rightarrow> string option" where
  "tabulate os sep fill cols =
     tab_loop os sep fill cols (replicate (length cols) start_state)"

text \<open>The two convenience overloads.\<close>

definition tabulate_sep :: "string \<Rightarrow> string \<Rightarrow> column list \<Rightarrow> string option" where
  "tabulate_sep os sep cols = tabulate os sep (CHR '' '') cols"

definition tabulate_default :: "string \<Rightarrow> column list \<Rightarrow> string option" where
  "tabulate_default os cols = tabulate os '' '' (CHR '' '') cols"

subsection \<open>The lines written by the loop\<close>

text \<open>
  \<open>segment c state\<close> is what \<^verbatim>\<open>emit_col\<close> writes for column \<open>c\<close> from the cursor \<open>state\<close>.
\<close>

definition segment :: "column \<Rightarrow> colstate \<Rightarrow> string" where
  "segment c state = fst (emit_col [] state c)"

text \<open>
  \<open>col_state c n\<close> is the cursor of column \<open>c\<close> after \<open>n\<close> rounds, that is at the start of
  line \<open>n\<close> (counted from 0). \<open>line_pos c state\<close> is \<^verbatim>\<open>lp\<close> when the segment written from
  \<open>state\<close> ends.
\<close>

definition col_state :: "column \<Rightarrow> nat \<Rightarrow> colstate" where
  "col_state c n = (col_step c ^^ n) start_state"

definition line_pos :: "column \<Rightarrow> colstate \<Rightarrow> nat" where
  "line_pos c state = lp (snd (emit_col [] state c))"

text \<open>
  The segment of column \<open>c\<close> on line \<open>n\<close> begins at index \<open>seg_start c n\<close> of the text and
  ends before index \<open>seg_end c n\<close>.
\<close>

definition seg_start :: "column \<Rightarrow> nat \<Rightarrow> nat" where
  "seg_start c n = cp (col_state c n)"

definition seg_end :: "column \<Rightarrow> nat \<Rightarrow> nat" where
  "seg_end c n = seg_start c n + length (segment c (col_state c n))"

subsection \<open>The notions of the specification\<close>

text \<open>
  The line as the specification describes it. \<open>fill_count\<close> is the number of fill
  characters: the width minus the line position, or with a tab as fill the number of
  steps of 8 that reach the width from the line position. A column that is not the
  last one contributes its segment, the fill characters and the separator; the last
  column contributes its segment only.
\<close>

definition fill_count :: "char \<Rightarrow> nat \<Rightarrow> nat \<Rightarrow> nat" where
  "fill_count fill w l = (if fill = tab then (w - l + 7) div 8 else w - l)"

definition spec_cell :: "string \<Rightarrow> char \<Rightarrow> bool \<Rightarrow> column \<Rightarrow> colstate \<Rightarrow> string" where
  "spec_cell sep fill is_last c state =
     (if is_last then segment c state
      else segment c state @ replicate (fill_count fill (width c) (line_pos c state)) fill @ sep)"

fun spec_line :: "string \<Rightarrow> char \<Rightarrow> column list \<Rightarrow> colstate list \<Rightarrow> string" where
  "spec_line sep fill (c # cs) (s # ss) = spec_cell sep fill (cs = []) c s @ spec_line sep fill cs ss"
| "spec_line sep fill _ _ = []"

text \<open>The largest number of a list, 0 for the empty list.\<close>

definition max_list :: "nat list \<Rightarrow> nat" where
  "max_list ns = foldr max ns 0"

text \<open>
  The "fits" test as the specification words it, on the text as a sequence of characters
  with a length: scan from \<open>i\<close> with a counter \<open>l\<close>; at the end of the text the answer is
  \<open>l < w\<close>; before it, the answer is no once \<open>l\<close> has reached \<open>w\<close>, yes at a blank, and
  otherwise the scan goes on with both counters increased. \<open>spec_would_break\<close> is the
  line-break decision built on it.
\<close>

function spec_word_fits :: "string \<Rightarrow> nat \<Rightarrow> nat \<Rightarrow> nat \<Rightarrow> bool" where
  "spec_word_fits txt w i l =
     (if i < length txt
      then (if l < w
            then (if isws (txt ! i) then True else spec_word_fits txt w (i + 1) (l + 1))
            else False)
      else l < w)"
  by pat_completeness auto
termination
  by (relation "measure (\<lambda>(txt, w, i, l). length txt - i)") auto

declare spec_word_fits.simps [simp del]

definition spec_would_break :: "string \<Rightarrow> nat \<Rightarrow> nat \<Rightarrow> nat \<Rightarrow> char \<Rightarrow> bool" where
  "spec_would_break txt w cpos lpos ch =
     (ch = newline \<or> (isws ch \<and> \<not> spec_word_fits txt w cpos lpos))"

text \<open>
  The per-column line emission of the specification, on the text as a sequence of
  characters with a length: \<open>spec_emit_line str w i l\<close> is the consume position after one
  line that starts at consume position \<open>i\<close> and line position \<open>l\<close>. The next character is
  read and consumed; if it breaks the line it is dropped and the line ends, otherwise
  it is emitted and the loop goes on; the line ends as well when the text is exhausted.
\<close>

function spec_emit_line :: "string \<Rightarrow> nat \<Rightarrow> nat \<Rightarrow> nat \<Rightarrow> nat" where
  "spec_emit_line str w i l =
     (if length str \<le> i then i
      else if spec_would_break str w (i + 1) l (str ! i) then i + 1
      else spec_emit_line str w (i + 1) (l + 1))"
  by pat_completeness auto
termination
  by (relation "measure (\<lambda>(str, w, i, l). length str - i)") auto

declare spec_emit_line.simps [simp del]

lemma spec_emit_line_progress:
  "i < length str \<Longrightarrow> i < spec_emit_line str w i l"
proof (induction str w i l rule: spec_emit_line.induct)
  case (1 str w i l)
  show ?case
  proof (cases "spec_would_break str w (i + 1) l (str ! i)")
    case True
    with "1.prems" show ?thesis by (subst spec_emit_line.simps) simp
  next
    case False
    have "i < spec_emit_line str w (i + 1) (l + 1)"
    proof (cases "i + 1 < length str")
      case True
      then have "i + 1 < spec_emit_line str w (i + 1) (l + 1)"
        using "1.prems" False by (intro "1.IH") simp_all
      then show ?thesis by simp
    next
      case F: False
      then show ?thesis by (subst spec_emit_line.simps) simp
    qed
    with False "1.prems" show ?thesis by (subst spec_emit_line.simps) simp
  qed
qed

text \<open>
  The word-wrapped line count of a text at a width, by the specification: the number
  of rounds a column takes alone, each round one line from line position 0, until the
  text is exhausted.
\<close>

function spec_line_count :: "string \<Rightarrow> nat \<Rightarrow> nat \<Rightarrow> nat" where
  "spec_line_count str w i =
     (if length str \<le> i then 0 else Suc (spec_line_count str w (spec_emit_line str w i 0)))"
  by pat_completeness auto
termination
proof (relation "measure (\<lambda>(str, w, i). length str - i)")
  show "wf (measure (\<lambda>(str, w, i). length str - i))" by simp
next
  fix str :: string and w i :: nat
  assume "\<not> length str \<le> i"
  then have "i < length str" by simp
  then show "((str, w, spec_emit_line str w i 0), (str, w, i))
      \<in> measure (\<lambda>(str, w, i). length str - i)"
    using spec_emit_line_progress[of i str w 0] by (simp add: diff_less_mono2)
qed

declare spec_line_count.simps [simp del]

text \<open>
  A word is a maximal run of characters none of which ends a segment; the characters
  that end one, and are dropped, are the blank characters, the line terminator and
  NUL. \<open>word_length c i\<close> is the length of the word that starts at index \<open>i\<close> (0 when a
  breaking character or the end of the text is there).
\<close>

definition is_break :: "char \<Rightarrow> bool" where
  "is_break ch = (ch = NUL \<or> ch = newline \<or> isws ch)"

definition word_length :: "column \<Rightarrow> nat \<Rightarrow> nat" where
  "word_length c i = length (takeWhile (\<lambda>ch. \<not> is_break ch) (drop i (p c)))"

subsection \<open>Widths the padding counter can reach\<close>

text \<open>
  The counter of \<^verbatim>\<open>switch_col\<close> does not wrap when the width plus the step is at most
  \<open>2 ^ 64\<close>: every width with a step of 1, the widths up to \<open>SIZE_MAX - 7\<close> with the step
  of 8 of a tab. Only the columns before the last one are padded.
\<close>

definition fill_ok :: "char \<Rightarrow> nat \<Rightarrow> bool" where
  "fill_ok fill w = (w + switch_inc fill \<le> SIZE_MAX + 1)"

definition widths_ok :: "char \<Rightarrow> column list \<Rightarrow> bool" where
  "widths_ok fill cols = (\<forall>c\<in>set (butlast cols). fill_ok fill (width c))"

text \<open>
  \<open>col_rounds c state\<close> is the number of rounds after which the cursor of column \<open>c\<close> is
  exhausted, and \<open>out_lines\<close> lists, line by line, the line of the specification built
  from the cursors of the columns, for as many lines as the slowest column needs.
\<close>

function col_rounds :: "column \<Rightarrow> colstate \<Rightarrow> nat" where
  "col_rounds c state = (if end_col state c then 0 else Suc (col_rounds c (col_step c state)))"
  by pat_completeness auto
termination
proof (relation "measure (\<lambda>(c, state). length (p c) - cp state)")
  show "wf (measure (\<lambda>(c, state). length (p c) - cp state))" by simp
next
  fix c state
  assume "\<not> end_col state c"
  then show "((c, col_step c state), (c, state)) \<in> measure (\<lambda>(c, state). length (p c) - cp state)"
    using col_step_cp[of state c] by (auto simp: end_col_def intro: diff_less_mono2)
qed

declare col_rounds.simps [simp del]

definition out_lines :: "string \<Rightarrow> char \<Rightarrow> column list \<Rightarrow> string list" where
  "out_lines sep fill cols =
     map (\<lambda>n. spec_line sep fill cols (map (\<lambda>c. col_state c n) cols))
       [0..<max_list (map (\<lambda>c. col_rounds c start_state) cols)]"

subsection \<open>Example columns\<close>

text \<open>The two columns of the example in the documentation of \<^verbatim>\<open>tabulate\<close>.\<close>

definition scenario1_a :: column where
  "scenario1_a = \<lparr>p = ''abc def ghi'', width = 6\<rparr>"

definition scenario1_b :: column where
  "scenario1_b = \<lparr>p = ''123 4432 17 8989'', width = 4\<rparr>"

text \<open>
  A text with a NUL character inside, as the \<^verbatim>\<open>std::string\<close> constructor accepts it, a
  single word longer than the width, and a run of non-blank characters with a NUL
  character inside.
\<close>

definition nul_text :: column where
  "nul_text = \<lparr>p = ''a b'' @ [NUL] @ ''cd'', width = 4\<rparr>"

definition long_word :: column where
  "long_word = \<lparr>p = ''abcdef'', width = 3\<rparr>"

definition nul_word :: column where
  "nul_word = \<lparr>p = ''ab'' @ [NUL] @ ''cd'', width = 10\<rparr>"

text \<open>
  Columns for the wrap-around of the padding counter: a width of \<open>SIZE_MAX\<close> with a text
  and with an empty text, and a second column.
\<close>

definition wide_a :: column where
  "wide_a = \<lparr>p = ''a'', width = SIZE_MAX\<rparr>"

definition wide_empty :: column where
  "wide_empty = \<lparr>p = [], width = SIZE_MAX\<rparr>"

definition narrow_b :: column where
  "narrow_b = \<lparr>p = ''b'', width = 1\<rparr>"

text \<open>Two columns of one character each.\<close>

definition one_a :: column where
  "one_a = \<lparr>p = ''a'', width = 1\<rparr>"

definition one_b :: column where
  "one_b = \<lparr>p = ''b'', width = 1\<rparr>"

section \<open>Auxiliary facts\<close>

subsection \<open>The padding loop of \<^verbatim>\<open>switch_col\<close>\<close>

text \<open>
  When the counter cannot wrap the loop writes \<open>fill_count\<close> fill characters. With a tab
  as fill and a width of \<open>SIZE_MAX\<close> the counter keeps its remainder modulo 8 through the
  wrap-around, so from a start that is not 7 modulo 8 it never reaches the width.
\<close>

lemma tab_steps:
  assumes "i < w"
  shows "(w - i + 7) div 8 = Suc ((w - (i + 8) + 7) div 8)"
proof (cases "i + 8 \<le> w")
  case True
  then have "w - i + 7 = (w - (i + 8) + 7) + 8" by simp
  then have "(w - i + 7) div 8 = ((w - (i + 8) + 7) + 8) div 8" by (rule arg_cong)
  also have "\<dots> = Suc ((w - (i + 8) + 7) div 8)" by (subst div_add_self2) simp_all
  finally show ?thesis .
next
  case False
  then have z: "w - (i + 8) = 0" by simp
  have "(w - i + 7) div 8 = 1"
    using assms False by (intro div_nat_eqI) simp_all
  with z show ?thesis by simp
qed

lemma fill_count_step:
  "i < w \<Longrightarrow> fill_count fill w i = Suc (fill_count fill w (i + switch_inc fill))"
  using tab_steps[of i w] by (cases "fill = tab") (simp_all add: fill_count_def switch_inc_def)

lemma switch_col_loop_closed:
  "fill_ok fill colwidth \<Longrightarrow>
   switch_col_loop os i colwidth fill = Some (os @ replicate (fill_count fill colwidth i) fill)"
proof (induction "colwidth - i" arbitrary: os i rule: less_induct)
  case less
  show ?case
  proof (cases "i < colwidth")
    case True
    have inc: "0 < switch_inc fill" by (simp add: switch_inc_def)
    have "i + switch_inc fill < SIZE_MAX + 1"
      using True less.prems by (simp add: fill_ok_def)
    then have m: "(i + switch_inc fill) mod (SIZE_MAX + 1) = i + switch_inc fill" by simp
    have "switch_col_loop os i colwidth fill =
          switch_col_loop (os @ [fill]) (i + switch_inc fill) colwidth fill"
      using True m by (subst switch_col_loop.simps) simp
    also have "\<dots> = Some ((os @ [fill]) @
        replicate (fill_count fill colwidth (i + switch_inc fill)) fill)"
      using True inc less.prems by (intro less.hyps) simp_all
    finally show ?thesis
      using fill_count_step[OF True, of fill] by simp
  next
    case False
    then show ?thesis by (subst switch_col_loop.simps) (simp add: fill_count_def)
  qed
qed

lemma SIZE_MAX_facts:
  "SIZE_MAX + 1 = 2 ^ 64" "SIZE_MAX mod 8 = 7" "8 dvd SIZE_MAX + 1"
  by (simp_all add: SIZE_MAX_def)

lemma switch_col_loop_wraps:
  assumes "switch_col_loop os i w fill = Some y"
  shows "\<not> (w = SIZE_MAX \<and> fill = tab \<and> i \<le> SIZE_MAX \<and> i mod 8 \<noteq> 7)"
proof (rule switch_col_loop.raw_induct
    [where P = "\<lambda>os i w fill y. \<not> (w = SIZE_MAX \<and> fill = tab \<and> i \<le> SIZE_MAX \<and> i mod 8 \<noteq> 7)",
     OF _ assms])
  fix f :: "string \<Rightarrow> nat \<Rightarrow> nat \<Rightarrow> char \<Rightarrow> string option" and os i w fill y
  assume ih: "\<And>os i w fill y. f os i w fill = Some y \<Longrightarrow>
      \<not> (w = SIZE_MAX \<and> fill = tab \<and> i \<le> SIZE_MAX \<and> i mod 8 \<noteq> 7)"
    and eq: "(if i < w then f (os @ [fill]) ((i + switch_inc fill) mod (SIZE_MAX + 1)) w fill
             else Some os) = Some y"
  show "\<not> (w = SIZE_MAX \<and> fill = tab \<and> i \<le> SIZE_MAX \<and> i mod 8 \<noteq> 7)"
  proof
    assume inv: "w = SIZE_MAX \<and> fill = tab \<and> i \<le> SIZE_MAX \<and> i mod 8 \<noteq> 7"
    then have "i \<noteq> SIZE_MAX" using SIZE_MAX_facts(2) by auto
    with inv have lt: "i < w" by simp
    let ?j = "(i + 8) mod (SIZE_MAX + 1)"
    have "f (os @ [fill]) ?j w fill = Some y"
      using eq lt inv by (simp add: switch_inc_def)
    moreover have "?j \<le> SIZE_MAX"
      using mod_less_divisor[of "SIZE_MAX + 1" "i + 8"] by simp
    moreover have "?j mod 8 = i mod 8"
      using SIZE_MAX_facts(3) by (simp add: mod_mod_cancel)
    ultimately show False using ih[of "os @ [fill]" ?j w fill y] inv by simp
  qed
qed

lemma switch_col_loop_None:
  "i \<le> SIZE_MAX \<Longrightarrow> i mod 8 \<noteq> 7 \<Longrightarrow> switch_col_loop os i SIZE_MAX tab = None"
  using switch_col_loop_wraps[of os i SIZE_MAX tab] by (cases "switch_col_loop os i SIZE_MAX tab") auto

lemma switch_col_closed:
  "fill_ok fill colwidth \<Longrightarrow>
   switch_col os state colwidth fill sep =
   Some (os @ replicate (fill_count fill colwidth (lp state)) fill @ sep)"
  by (simp add: switch_col_def switch_col_loop_closed)

subsection \<open>The output in closed form\<close>

text \<open>
  When the padding counter can reach the width of every column before the last, each
  round writes the line of the specification and \<^verbatim>\<open>tabulate\<close> returns the lines
  \<open>out_lines\<close>, each followed by a line terminator.
\<close>

lemma widths_ok_nth:
  assumes "widths_ok fill c" "col + 1 < length c"
  shows "fill_ok fill (width (c ! col))"
proof -
  have "col < length (butlast c)" using assms(2) by simp
  then have "butlast c ! col \<in> set (butlast c)" by (rule nth_mem)
  moreover have "butlast c ! col = c ! col" using assms(2) by (simp add: nth_butlast)
  ultimately show ?thesis using assms(1) by (auto simp: widths_ok_def)
qed

lemma line_loop_closed:
  "widths_ok fill c \<Longrightarrow> col \<le> length c \<Longrightarrow> length state = length c \<Longrightarrow>
   \<exists>state'. line_loop os sep fill c col state =
     Some (os @ spec_line sep fill (drop col c) (drop col state), state')"
proof (induction os sep fill c col state rule: line_loop.induct)
  case (1 os sep fill c col state)
  show ?case
  proof (cases "col < length c")
    case True
    let ?c = "c ! col" and ?s = "state ! col"
    obtain os1 state1 where e: "emit_col os ?s ?c = (os1, state1)"
      by (cases "emit_col os ?s ?c")
    have os1: "os1 = os @ segment ?c ?s" and state1: "line_pos ?c ?s = lp state1"
      using e emit_col_os[of os ?s ?c] by (simp_all add: segment_def line_pos_def)
    define os2 where "os2 = os @ spec_cell sep fill (drop (Suc col) c = []) ?c ?s"
    have sw: "(if col + 1 < length c
               then switch_col os1 state1 (width ?c) fill sep else Some os1) = Some os2"
      using True widths_ok_nth[OF "1.prems"(1), of col]
      by (auto simp add: os2_def spec_cell_def switch_col_closed os1 state1)
    obtain state' where r: "line_loop os2 sep fill c (col + 1) (state[col := breakLine state1]) =
        Some (os2 @ spec_line sep fill (drop (col + 1) c)
                (drop (col + 1) (state[col := breakLine state1])), state')"
      using "1.IH"[OF True e[symmetric] refl sw] True "1.prems" by auto
    have "line_loop os sep fill c col state =
          line_loop os2 sep fill c (col + 1) (state[col := breakLine state1])"
      using True e sw by (subst line_loop.simps) simp
    also note r
    also have "os2 @ spec_line sep fill (drop (col + 1) c)
                (drop (col + 1) (state[col := breakLine state1])) =
               os @ spec_line sep fill (drop col c) (drop col state)"
      using True "1.prems"
      by (simp add: os2_def Cons_nth_drop_Suc[symmetric])
    finally show ?thesis by blast
  next
    case False
    then show ?thesis using "1.prems" by (simp add: line_loop.simps)
  qed
qed

lemma line_loop_full:
  assumes "widths_ok fill c" "length state = length c"
  shows "line_loop os sep fill c 0 state =
         Some (os @ spec_line sep fill c state, map2 col_step c state)"
proof -
  obtain state' where l: "line_loop os sep fill c 0 state =
      Some (os @ spec_line sep fill c state, state')"
    using line_loop_closed[OF assms(1) _ assms(2), of 0 os sep] by auto
  have "state' = map2 col_step c state"
    using line_loop_state[OF l] assms(2) by (intro nth_equalityI) simp_all
  with l show ?thesis by simp
qed

lemma tab_round_closed:
  assumes "widths_ok fill c" "length state = length c"
  shows "tab_round os sep fill c state =
         Some (os @ spec_line sep fill c state @ [newline], map2 col_step c state)"
  by (simp add: tab_round_def line_loop_full[OF assms])

lemma col_step_end: "end_col state c \<Longrightarrow> col_step c state = breakLine state"
  by (simp add: col_step_def emit_col_end)

lemma col_step_end_col: "end_col state c \<Longrightarrow> end_col (col_step c state) c"
  by (simp add: col_step_end breakLine_def end_col_def)

lemma is_unconsumed_iff:
  "length state = length c \<Longrightarrow>
   is_unconsumed state c = (\<exists>i<length c. \<not> end_col (state ! i) (c ! i))"
  by (auto simp: is_unconsumed_def list_ex_iff)

lemma col_rounds_zero: "col_rounds c state = 0 \<longleftrightarrow> end_col state c"
  by (subst col_rounds.simps) simp

lemma col_rounds_step: "col_rounds c (col_step c state) = col_rounds c state - 1"
proof (cases "end_col state c")
  case True
  then show ?thesis
    using col_step_end_col[OF True] by (simp add: col_rounds.simps)
next
  case False
  then show ?thesis by (subst (2) col_rounds.simps) simp
qed

lemma col_rounds_le: "col_rounds c state \<le> length (p c) - cp state"
proof (induction c state rule: col_rounds.induct)
  case (1 c state)
  show ?case
  proof (cases "end_col state c")
    case True
    then show ?thesis by (simp add: col_rounds.simps)
  next
    case False
    have a: "cp state < cp (col_step c state)" "cp state < length (p c)"
      using False col_step_cp[of state c] by (simp_all add: end_col_def)
    with "1.IH"[OF False] False show ?thesis by (subst col_rounds.simps) simp
  qed
qed

lemma max_list_pred: "max_list (map (\<lambda>x. x - 1) ns) = max_list ns - 1"
  by (induction ns) (auto simp: max_list_def max_def)

lemma max_list_pos: "0 < max_list ns \<longleftrightarrow> (\<exists>i<length ns. 0 < ns ! i)"
proof (induction ns)
  case Nil
  then show ?case by (simp add: max_list_def)
next
  case (Cons a ns)
  have "(\<exists>i<Suc (length ns). 0 < (a # ns) ! i) = (0 < a \<or> (\<exists>i<length ns. 0 < ns ! i))"
    by (metis (no_types, lifting) less_Suc_eq_0_disj nth_Cons_0 nth_Cons_Suc)
  with Cons show ?case by (auto simp: max_list_def max_def)
qed

lemma max_list_mono:
  "(\<And>x. x \<in> set xs \<Longrightarrow> f x \<le> g x) \<Longrightarrow> max_list (map f xs) \<le> max_list (map g xs)"
  by (induction xs) (auto simp: max_list_def max_def intro: order_trans)

lemma col_rounds_unconsumed:
  assumes "length state = length c"
  shows "0 < max_list (map2 col_rounds c state) \<longleftrightarrow> is_unconsumed state c"
proof -
  have "(0 < map2 col_rounds c state ! i) = (\<not> end_col (state ! i) (c ! i))"
    if "i < length c" for i
    using that assms col_rounds_zero[of "c ! i" "state ! i"] by auto
  then have "(\<exists>i<length c. 0 < map2 col_rounds c state ! i) =
             (\<exists>i<length c. \<not> end_col (state ! i) (c ! i))"
    by blast
  then show ?thesis
    using assms by (simp add: max_list_pos is_unconsumed_iff)
qed

lemma col_rounds_next:
  assumes "length state = length c"
  shows "max_list (map2 col_rounds c (map2 col_step c state)) =
         max_list (map2 col_rounds c state) - 1"
proof -
  have "map2 col_rounds c (map2 col_step c state) = map (\<lambda>x. x - 1) (map2 col_rounds c state)"
    using assms by (intro nth_equalityI) (simp_all add: col_rounds_step)
  then show ?thesis by (simp only: max_list_pred)
qed

lemma col_state_Suc: "col_state c (Suc n) = col_step c (col_state c n)"
  by (simp add: col_state_def)

lemma col_state_lp: "lp (col_state c n) = 0"
  by (cases n) (simp_all add: col_state_def start_state_def col_step_def breakLine_def)

lemma col_state_end_mono:
  "end_col (col_state c n) c \<Longrightarrow> n \<le> m \<Longrightarrow> end_col (col_state c m) c"
  by (induction m) (auto simp: col_state_Suc le_Suc_eq col_step_end_col)

lemma segment_end: "end_col state c \<Longrightarrow> segment c state = []"
  by (simp add: segment_def emit_col_end)

lemma line_pos_end: "end_col state c \<Longrightarrow> line_pos c state = lp state"
  by (simp add: line_pos_def emit_col_end)

lemma map2_col_step_funpow:
  "length state = length c \<Longrightarrow>
   map2 (\<lambda>c s. (col_step c ^^ n) s) c (map2 col_step c state) =
   map2 (\<lambda>c s. (col_step c ^^ Suc n) s) c state"
  by (rule nth_equalityI) (simp_all add: funpow_swap1)

lemma start_col_states:
  "map2 (\<lambda>c s. (col_step c ^^ n) s) cols (replicate (length cols) start_state) =
   map (\<lambda>c. col_state c n) cols"
  by (rule nth_equalityI) (simp_all add: col_state_def)

lemma tab_loop_closed:
  assumes "widths_ok fill c"
  shows "length state = length c \<Longrightarrow> max_list (map2 col_rounds c state) = N \<Longrightarrow>
    tab_loop os sep fill c state =
    Some (os @ concat (map (\<lambda>n. spec_line sep fill c
        (map2 (\<lambda>c s. (col_step c ^^ n) s) c state) @ [newline]) [0..<N]))"
proof (induction N arbitrary: os state)
  case 0
  then have "\<not> is_unconsumed state c"
    using col_rounds_unconsumed[of state c] by simp
  then show ?case by (simp add: tab_loop.simps)
next
  case (Suc N)
  let ?next = "map2 col_step c state"
  have u: "is_unconsumed state c"
    using Suc.prems col_rounds_unconsumed[of state c] by simp
  have n: "max_list (map2 col_rounds c ?next) = N"
    using Suc.prems col_rounds_next[of state c] by simp
  have id: "map2 (\<lambda>x. id) c state = state"
    using Suc.prems(1) by (intro nth_equalityI) simp_all
  have "tab_loop os sep fill c state =
        tab_loop (os @ spec_line sep fill c state @ [newline]) sep fill c ?next"
    using u tab_round_closed[OF assms Suc.prems(1), of os sep]
    by (subst tab_loop.simps) simp
  also have "\<dots> = Some ((os @ spec_line sep fill c state @ [newline]) @
      concat (map (\<lambda>n. spec_line sep fill c
        (map2 (\<lambda>c s. (col_step c ^^ n) s) c ?next) @ [newline]) [0..<N]))"
    using Suc.prems(1) n by (intro Suc.IH) simp_all
  also have "map (\<lambda>n. spec_line sep fill c
        (map2 (\<lambda>c s. (col_step c ^^ n) s) c ?next) @ [newline]) [0..<N] =
      map (\<lambda>n. spec_line sep fill c
        (map2 (\<lambda>c s. (col_step c ^^ n) s) c state) @ [newline]) (map Suc [0..<N])"
    using map2_col_step_funpow[OF Suc.prems(1)] by (simp add: comp_def)
  finally show ?case
    by (simp add: upt_conv_Cons[of 0 "Suc N"] map_Suc_upt id del: upt_Suc)
qed

lemma tabulate_closed:
  assumes "widths_ok fill cols"
  shows "tabulate os sep fill cols =
         Some (os @ concat (map (\<lambda>line. line @ [newline]) (out_lines sep fill cols)))"
proof -
  have "map2 col_rounds cols (replicate (length cols) start_state) =
        map (\<lambda>c. col_rounds c start_state) cols"
    by (rule nth_equalityI) simp_all
  then show ?thesis
    using tab_loop_closed[OF assms, of "replicate (length cols) start_state"
        "max_list (map (\<lambda>c. col_rounds c start_state) cols)" os sep]
    by (simp add: tabulate_def out_lines_def start_col_states comp_def)
qed

subsection \<open>The code and the reference algorithm\<close>

text \<open>
  On a text without NUL the scan, the line-break decision, the emission of one line and
  the number of lines of a column are those of the specification.
\<close>

lemma segment_emits:
  "emits state c \<Longrightarrow>
   segment c state =
   char_at c (cp state) # segment c (state\<lparr>cp := cp state + 1, lp := lp state + 1\<rparr>)"
  using emit_col_os[of "[char_at c (cp state)]" "state\<lparr>cp := cp state + 1, lp := lp state + 1\<rparr>" c]
  by (simp add: segment_def emit_col_emits[of state c "[]"])

lemma emit_col_lp:
  "lp (snd (emit_col os state c)) = lp state + length (segment c state)"
proof (induction os state c rule: emit_col_induct)
  case (ended os state c)
  then show ?case by (simp add: emit_col_end segment_def)
next
  case (stop os state c)
  then show ?case by (simp add: emit_col_stop segment_def)
next
  case (emits os state c)
  then show ?case by (simp add: emit_col_emits segment_emits)
qed

lemma line_pos_segment: "line_pos c state = lp state + length (segment c state)"
  by (simp add: line_pos_def emit_col_lp)

lemma nextWordFits_loop_spec:
  "NUL \<notin> set (p c) \<Longrightarrow> nextWordFits_loop c i l = spec_word_fits (p c) (width c) i l"
proof (induction c i l rule: nextWordFits_loop.induct)
  case (1 c i l)
  show ?case
  proof (cases "i < length (p c)")
    case True
    then have "p c ! i \<in> set (p c)" by simp
    with "1.prems" have "p c ! i \<noteq> NUL" by metis
    with True have ch: "char_at c i = p c ! i" "p c ! i \<noteq> NUL"
      by (simp_all add: char_at_def)
    show ?thesis
    proof (cases "l < width c \<and> \<not> isws (p c ! i)")
      case True
      then have "nextWordFits_loop c (i + 1) (l + 1) = spec_word_fits (p c) (width c) (i + 1) (l + 1)"
        using ch "1.prems" by (intro "1.IH") simp_all
      then show ?thesis
        using True ch \<open>i < length (p c)\<close>
        by (subst nextWordFits_loop.simps, subst spec_word_fits.simps) simp
    next
      case False
      then show ?thesis
        using ch \<open>i < length (p c)\<close>
        by (subst nextWordFits_loop.simps, subst spec_word_fits.simps) auto
    qed
  next
    case False
    then show ?thesis
      by (subst nextWordFits_loop.simps, subst spec_word_fits.simps) (simp add: char_at_def)
  qed
qed

lemma linebreak_reference:
  "NUL \<notin> set (p c) \<Longrightarrow>
   linebreak state ch c = spec_would_break (p c) (width c) (cp state) (lp state) ch"
  by (simp add: linebreak_def spec_would_break_def nextWordFits_def nextWordFits_loop_spec)

lemma emit_col_reference:
  "NUL \<notin> set (p c) \<Longrightarrow>
   cp (snd (emit_col os state c)) = spec_emit_line (p c) (width c) (cp state) (lp state)"
proof (induction os state c rule: emit_col_induct)
  case (ended os state c)
  then show ?case
    by (subst spec_emit_line.simps) (simp add: emit_col_end end_col_def)
next
  case (stop os state c)
  have lt: "cp state < length (p c)" using stop.hyps(1) by (simp add: end_col_def)
  then have "p c ! cp state \<in> set (p c)" by simp
  with stop.prems have "p c ! cp state \<noteq> NUL" by metis
  with lt stop.hyps(2)
  have "linebreak (state\<lparr>cp := cp state + 1\<rparr>) (p c ! cp state) c"
    by (simp add: emits_def end_col_def char_at_def)
  then have "spec_would_break (p c) (width c) (cp state + 1) (lp state) (p c ! cp state)"
    using linebreak_reference[OF stop.prems, of "state\<lparr>cp := cp state + 1\<rparr>"] by simp
  with lt stop.hyps show ?case
    by (subst spec_emit_line.simps) (simp add: emit_col_stop)
next
  case (emits os state c)
  have lt: "cp state < length (p c)" and ch: "char_at c (cp state) = p c ! cp state"
    using emits.hyps by (auto simp: emits_def end_col_def char_at_def)
  have "\<not> linebreak (state\<lparr>cp := cp state + 1\<rparr>) (p c ! cp state) c"
    using emits.hyps ch by (simp add: emits_def)
  then have "\<not> spec_would_break (p c) (width c) (cp state + 1) (lp state) (p c ! cp state)"
    using linebreak_reference[OF emits.prems, of "state\<lparr>cp := cp state + 1\<rparr>"] by simp
  with lt emits.IH[OF emits.prems] show ?case
    by (subst spec_emit_line.simps) (simp add: emit_col_emits[OF emits.hyps])
qed

lemma col_rounds_reference:
  "NUL \<notin> set (p c) \<Longrightarrow> lp state = 0 \<Longrightarrow>
   col_rounds c state = spec_line_count (p c) (width c) (cp state)"
proof (induction c state rule: col_rounds.induct)
  case (1 c state)
  show ?case
  proof (cases "end_col state c")
    case True
    then show ?thesis
      by (subst col_rounds.simps, subst spec_line_count.simps) (simp add: end_col_def)
  next
    case False
    have s: "cp (col_step c state) = spec_emit_line (p c) (width c) (cp state) 0"
      "lp (col_step c state) = 0"
      using emit_col_reference[OF "1.prems"(1), of "[]" state] "1.prems"(2)
      by (simp_all add: col_step_def breakLine_def)
    from "1.IH"[OF False "1.prems"(1) s(2)] False s(1) show ?thesis
      by (subst col_rounds.simps, subst spec_line_count.simps) (simp add: end_col_def)
  qed
qed

lemma emit_col_no_newline:
  "newline \<notin> set os \<Longrightarrow> newline \<notin> set (fst (emit_col os state c))"
proof (induction os state c rule: emit_col_induct)
  case (ended os state c)
  then show ?case by (simp add: emit_col_end)
next
  case (stop os state c)
  then show ?case by (simp add: emit_col_stop)
next
  case (emits os state c)
  have "char_at c (cp state) \<noteq> newline"
    using emits.hyps by (auto simp: emits_def linebreak_def)
  with emits show ?case by (simp add: emit_col_emits)
qed

lemma segment_no_newline: "newline \<notin> set (segment c state)"
  using emit_col_no_newline[of "[]" state c] by (simp add: segment_def)

lemma spec_line_no_newline:
  "newline \<notin> set sep \<Longrightarrow> fill \<noteq> newline \<Longrightarrow> newline \<notin> set (spec_line sep fill c state)"
  by (induction sep fill c state rule: spec_line.induct)
     (auto simp: spec_cell_def segment_no_newline)

lemma out_lines_no_newline:
  "newline \<notin> set sep \<Longrightarrow> fill \<noteq> newline \<Longrightarrow>
   \<forall>line\<in>set (out_lines sep fill cols). newline \<notin> set line"
  by (auto simp: out_lines_def spec_line_no_newline)

lemma out_lines_length:
  "length (out_lines sep fill cols) = max_list (map (\<lambda>c. col_rounds c start_state) cols)"
  by (simp add: out_lines_def)

lemma out_lines_length_le:
  "length (out_lines sep fill cols) \<le> max_list (map (\<lambda>c. length (p c)) cols)"
proof -
  have "col_rounds c start_state \<le> length (p c)" for c
    using col_rounds_le[of c start_state] by (simp add: start_state_def)
  then show ?thesis by (simp add: out_lines_length max_list_mono)
qed

lemma out_lines_reference:
  assumes "\<forall>c\<in>set cols. NUL \<notin> set (p c)"
  shows "length (out_lines sep fill cols) =
         max_list (map (\<lambda>c. spec_line_count (p c) (width c) 0) cols)"
proof -
  have "col_rounds c start_state = spec_line_count (p c) (width c) 0" if "c \<in> set cols" for c
    using that assms col_rounds_reference[of c start_state] by (simp add: start_state_def)
  then have "map (\<lambda>c. col_rounds c start_state) cols =
             map (\<lambda>c. spec_line_count (p c) (width c) 0) cols"
    by (intro map_cong) simp_all
  then show ?thesis by (simp only: out_lines_length)
qed

subsection \<open>Words and segments\<close>

text \<open>
  A segment is a slice of the text that ends at the end of the text or at a breaking
  character, which is dropped; the segments follow one another, so every word lies in
  exactly one of them.
\<close>

lemma word_length_unfold:
  "word_length c i =
   (if i < length (p c) \<and> \<not> is_break (p c ! i) then Suc (word_length c (i + 1)) else 0)"
proof (cases "i < length (p c)")
  case True
  then have "drop i (p c) = p c ! i # drop (Suc i) (p c)"
    by (simp add: Cons_nth_drop_Suc)
  then show ?thesis using True by (simp add: word_length_def)
next
  case False
  then show ?thesis by (simp add: word_length_def)
qed

lemma nextWordFits_loop_bound:
  "nextWordFits_loop c i l \<Longrightarrow> l + word_length c i < width c"
proof (induction c i l rule: nextWordFits_loop.induct)
  case (1 c i l)
  show ?case
  proof (cases "char_at c i \<noteq> NUL \<and> l < width c")
    case True
    show ?thesis
    proof (cases "isws (char_at c i)")
      case ws: True
      then have "word_length c i = 0"
        by (subst word_length_unfold) (auto simp: char_at_def is_break_def split: if_splits)
      with True show ?thesis by simp
    next
      case False
      then have "nextWordFits_loop c (i + 1) (l + 1)"
        using True "1.prems" by (subst (asm) nextWordFits_loop.simps) simp
      then have "l + 1 + word_length c (i + 1) < width c"
        using True False by (intro "1.IH") simp_all
      then show ?thesis by (subst word_length_unfold) simp
    qed
  next
    case False
    then have l: "l < width c" and "char_at c i = NUL"
      using "1.prems" by (subst (asm) nextWordFits_loop.simps, auto)+
    then have "word_length c i = 0"
      by (subst word_length_unfold) (auto simp: char_at_def is_break_def split: if_splits)
    with l show ?thesis by simp
  qed
qed

lemma emit_col_bound:
  "lp state + word_length c (cp state) \<le> B \<Longrightarrow> width c \<le> B \<Longrightarrow>
   lp (snd (emit_col os state c)) \<le> B"
proof (induction os state c rule: emit_col_induct)
  case (ended os state c)
  then show ?case by (simp add: emit_col_end)
next
  case (stop os state c)
  then show ?case by (simp add: emit_col_stop)
next
  case (emits os state c)
  let ?ch = "char_at c (cp state)"
  have e: "cp state < length (p c)" "?ch = p c ! cp state" "?ch \<noteq> NUL" "?ch \<noteq> newline"
    "isws ?ch \<longrightarrow> nextWordFits_loop c (cp state + 1) (lp state)"
    using emits.hyps
    by (auto simp: emits_def end_col_def char_at_def linebreak_def nextWordFits_def)
  have "lp state + 1 + word_length c (cp state + 1) \<le> B"
  proof (cases "isws ?ch")
    case True
    with e(5) have "lp state + word_length c (cp state + 1) < width c"
      by (intro nextWordFits_loop_bound) simp
    with emits.prems(2) show ?thesis by simp
  next
    case False
    with e have "word_length c (cp state) = Suc (word_length c (cp state + 1))"
      by (subst word_length_unfold) (simp add: is_break_def)
    with emits.prems(1) show ?thesis by simp
  qed
  with emits show ?case by (simp add: emit_col_emits)
qed

lemma emit_col_slice:
  "\<exists>k. fst (emit_col os state c) = os @ take k (drop (cp state) (p c)) \<and>
       (length (p c) \<le> cp state + k \<and> cp (snd (emit_col os state c)) = cp state + k \<or>
        cp state + k < length (p c) \<and> is_break (p c ! (cp state + k)) \<and>
        cp (snd (emit_col os state c)) = cp state + k + 1)"
proof (induction os state c rule: emit_col_induct)
  case (ended os state c)
  then show ?case
    by (intro exI[of _ 0]) (simp add: emit_col_end end_col_def)
next
  case (stop os state c)
  then have "cp state < length (p c)" "is_break (p c ! cp state)"
    by (auto simp: emits_def end_col_def char_at_def linebreak_def is_break_def)
  with stop show ?case
    by (intro exI[of _ 0]) (simp add: emit_col_stop)
next
  case (emits os state c)
  let ?s = "state\<lparr>cp := cp state + 1, lp := lp state + 1\<rparr>"
  have lt: "cp state < length (p c)" and ch: "char_at c (cp state) = p c ! cp state"
    using emits.hyps by (auto simp: emits_def end_col_def char_at_def)
  obtain k where k: "fst (emit_col (os @ [p c ! cp state]) ?s c) =
        (os @ [p c ! cp state]) @ take k (drop (cp ?s) (p c))"
      "length (p c) \<le> cp ?s + k \<and> cp (snd (emit_col (os @ [p c ! cp state]) ?s c)) = cp ?s + k \<or>
       cp ?s + k < length (p c) \<and> is_break (p c ! (cp ?s + k)) \<and>
       cp (snd (emit_col (os @ [p c ! cp state]) ?s c)) = cp ?s + k + 1"
    using emits.IH unfolding ch by blast
  have "take (Suc k) (drop (cp state) (p c)) = p c ! cp state # take k (drop (Suc (cp state)) (p c))"
    using lt by (simp add: Cons_nth_drop_Suc[symmetric])
  with k show ?case
    by (intro exI[of _ "Suc k"]) (simp add: emit_col_emits[OF emits.hyps] ch)
qed

lemma segment_slice:
  "segment c state = take (length (segment c state)) (drop (cp state) (p c)) \<and>
   (length (p c) \<le> cp state + length (segment c state) \<and>
      cp (snd (emit_col [] state c)) = cp state + length (segment c state) \<or>
    cp state + length (segment c state) < length (p c) \<and>
      is_break (p c ! (cp state + length (segment c state))) \<and>
      cp (snd (emit_col [] state c)) = cp state + length (segment c state) + 1)"
proof -
  obtain k where k: "segment c state = take k (drop (cp state) (p c))"
     "length (p c) \<le> cp state + k \<and> cp (snd (emit_col [] state c)) = cp state + k \<or>
      cp state + k < length (p c) \<and> is_break (p c ! (cp state + k)) \<and>
      cp (snd (emit_col [] state c)) = cp state + k + 1"
    using emit_col_slice[of "[]" state c] by (auto simp: segment_def)
  have cpb: "cp state \<le> length (p c) \<Longrightarrow> cp (snd (emit_col [] state c)) \<le> length (p c)"
    using emit_col_cp[of state "[]" c] by simp
  from k(2) show ?thesis
  proof
    assume a: "length (p c) \<le> cp state + k \<and> cp (snd (emit_col [] state c)) = cp state + k"
    then have len: "length (segment c state) = length (p c) - cp state"
      by (auto simp add: k(1) min_def)
    show ?thesis
    proof (cases "cp state \<le> length (p c)")
      case True
      with a cpb have "cp state + k = length (p c)" by simp
      with a len True show ?thesis by (simp add: k(1))
    next
      case False
      then have "end_col state c" by (simp add: end_col_def)
      then show ?thesis using False by (simp add: segment_def emit_col_end)
    qed
  next
    assume a: "cp state + k < length (p c) \<and> is_break (p c ! (cp state + k)) \<and>
      cp (snd (emit_col [] state c)) = cp state + k + 1"
    then have "length (segment c state) = k" by (auto simp add: k(1) min_def)
    with a k(1) show ?thesis by simp
  qed
qed

lemma seg_start_boundary:
  "seg_start c n = 0 \<or> length (p c) \<le> seg_start c n \<or>
   is_break (p c ! (seg_start c n - 1))"
proof (cases n)
  case 0
  then show ?thesis by (simp add: seg_start_def col_state_def start_state_def)
next
  case (Suc m)
  have "cp (col_state c (Suc m)) = cp (snd (emit_col [] (col_state c m) c))"
    by (simp add: col_state_Suc col_step_def breakLine_def)
  with segment_slice[of c "col_state c m"] Suc show ?thesis
    by (auto simp: seg_start_def)
qed

lemma seg_end_boundary:
  "length (p c) \<le> seg_end c n \<or> is_break (p c ! seg_end c n)"
  using segment_slice[of c "col_state c n"] by (auto simp: seg_end_def seg_start_def)

lemma word_in_one_segment:
  assumes "\<forall>j\<in>{a..<b}. j < length (p c) \<and> \<not> is_break (p c ! j)"
  shows "seg_start c n \<le> a \<and> b \<le> seg_end c n \<or> seg_end c n \<le> a \<or> b \<le> seg_start c n"
proof (rule ccontr)
  assume "\<not> ?thesis"
  then have o: "a < seg_end c n" "seg_start c n < b"
    and n: "a < seg_start c n \<or> seg_end c n < b" by auto
  from n show False
  proof
    assume s: "a < seg_start c n"
    then have "seg_start c n - 1 \<in> {a..<b}" using o(2) by auto
    with assms have w: "seg_start c n - 1 < length (p c)" "\<not> is_break (p c ! (seg_start c n - 1))"
      by blast+
    have "seg_start c n \<in> {a..<b}" using s o(2) by auto
    with assms have "seg_start c n < length (p c)" by blast
    with seg_start_boundary[of c n] s w show False by auto
  next
    assume "seg_end c n < b"
    then have "seg_end c n \<in> {a..<b}" using o(1) by auto
    with assms have "seg_end c n < length (p c)" "\<not> is_break (p c ! seg_end c n)" by blast+
    with seg_end_boundary[of c n] show False by auto
  qed
qed

lemma single_word_segment:
  assumes "\<forall>ch\<in>set (p c). \<not> is_break ch"
  shows "emit_col os start_state c = (os @ p c, \<lparr>cp = length (p c), lp = length (p c)\<rparr>)"
proof -
  let ?r = "emit_col os start_state c"
  obtain k where k: "fst ?r = os @ take k (p c)"
      "length (p c) \<le> k \<and> cp (snd ?r) = k \<or>
       k < length (p c) \<and> is_break (p c ! k) \<and> cp (snd ?r) = k + 1"
    using emit_col_slice[of os start_state c] by (auto simp: start_state_def)
  have nb: "\<not> is_break (p c ! k)" if "k < length (p c)"
    using that assms nth_mem by blast
  with k(2) have len: "length (p c) \<le> k" and cpr: "cp (snd ?r) = k" by auto
  have f: "fst ?r = os @ p c" using k(1) len by simp
  have "cp (snd ?r) \<le> length (p c)"
    using emit_col_cp[of start_state os c] by (simp add: start_state_def)
  with cpr len have c1: "cp (snd ?r) = length (p c)" by simp
  have "lp (snd ?r) = length (segment c start_state)"
    by (simp add: emit_col_lp start_state_def)
  also have "segment c start_state = p c"
    using f emit_col_os[of os start_state c] by (simp add: segment_def)
  finally have c2: "lp (snd ?r) = length (p c)" .
  show ?thesis
    using f c1 c2 by (cases ?r) (simp add: colstate.equality)
qed

lemma seg_chain:
  "seg_start c (Suc n) = (if seg_end c n < length (p c) then seg_end c n + 1 else seg_end c n) \<and>
   (seg_end c n < length (p c) \<longrightarrow> is_break (p c ! seg_end c n))"
proof -
  have "seg_start c (Suc n) = cp (snd (emit_col [] (col_state c n) c))"
    by (simp add: seg_start_def col_state_Suc col_step_def breakLine_def)
  with segment_slice[of c "col_state c n"] show ?thesis
    by (auto simp: seg_end_def seg_start_def)
qed

lemma seg_start_reaches:
  "j < seg_start c n \<Longrightarrow> \<exists>m<n. seg_start c m \<le> j \<and> j < seg_start c (Suc m)"
proof (induction n)
  case 0
  then show ?case by (simp add: seg_start_def col_state_def start_state_def)
next
  case (Suc n)
  show ?case
  proof (cases "j < seg_start c n")
    case True
    with Suc.IH obtain m where "m < n" "seg_start c m \<le> j \<and> j < seg_start c (Suc m)" by blast
    then show ?thesis by (intro exI[of _ m]) simp
  next
    case False
    with Suc.prems show ?thesis by (intro exI[of _ n]) simp
  qed
qed

lemma seg_start_grows: "n \<le> seg_start c n \<or> length (p c) \<le> seg_start c n"
proof (induction n)
  case 0
  then show ?case by simp
next
  case (Suc n)
  have s: "seg_start c (Suc n) = cp (col_step c (col_state c n))"
    by (simp add: seg_start_def col_state_Suc)
  show ?case
  proof (cases "end_col (col_state c n) c")
    case True
    then show ?thesis
      using col_step_cp[of "col_state c n" c] by (simp add: s end_col_def)
  next
    case False
    then have "seg_start c n < seg_start c (Suc n)"
      using col_step_cp[of "col_state c n" c] unfolding s by (simp add: seg_start_def)
    moreover have "n \<le> seg_start c n" using Suc.IH False by (simp add: end_col_def seg_start_def)
    ultimately show ?thesis by simp
  qed
qed

lemma char_covered:
  assumes "j < length (p c)" "\<not> is_break (p c ! j)"
  shows "\<exists>m. \<not> end_col (col_state c m) c \<and> seg_start c m \<le> j \<and> j < seg_end c m"
proof -
  have "j < seg_start c (Suc j)"
    using seg_start_grows[of "Suc j" c] assms(1) by auto
  then obtain m where m: "seg_start c m \<le> j" "j < seg_start c (Suc m)"
    using seg_start_reaches by blast
  have ne: "\<not> end_col (col_state c m) c"
    using m(1) assms(1) by (simp add: end_col_def seg_start_def)
  have "j < seg_end c m"
  proof (cases "seg_end c m < length (p c)")
    case True
    with seg_chain[of c m] m(2) have "j \<le> seg_end c m" "is_break (p c ! seg_end c m)" by simp_all
    with assms(2) show ?thesis by (cases "j = seg_end c m") auto
  next
    case False
    with assms(1) show ?thesis by simp
  qed
  with ne m(1) show ?thesis by blast
qed

lemma word_on_one_line:
  assumes "\<forall>j\<in>{a..<b}. j < length (p c) \<and> \<not> is_break (p c ! j)" "a < b"
  shows "\<exists>m. \<not> end_col (col_state c m) c \<and> seg_start c m \<le> a \<and> b \<le> seg_end c m"
proof -
  have "a \<in> {a..<b}" using assms(2) by simp
  with assms(1) have "a < length (p c)" "\<not> is_break (p c ! a)" by blast+
  then obtain m where m: "\<not> end_col (col_state c m) c" "seg_start c m \<le> a" "a < seg_end c m"
    using char_covered by blast
  with word_in_one_segment[OF assms(1), of m] assms(2) have "b \<le> seg_end c m" by auto
  with m show ?thesis by blast
qed

lemma single_column_output:
  "tabulate os sep fill [c] =
   Some (os @ concat (map (\<lambda>n. segment c (col_state c n) @ [newline])
                        [0..<col_rounds c start_state]))"
proof -
  have "widths_ok fill [c]" by (simp add: widths_ok_def)
  then show ?thesis
    by (simp add: tabulate_closed out_lines_def spec_cell_def max_list_def comp_def)
qed

lemma single_word_output:
  assumes "\<forall>ch\<in>set word. \<not> is_break ch" "word \<noteq> []"
  shows "tabulate os sep fill [\<lparr>p = word, width = w\<rparr>] = Some (os @ word @ [newline])"
proof -
  let ?c = "\<lparr>p = word, width = w\<rparr>"
  have s: "segment ?c start_state = word"
    "col_step ?c start_state = \<lparr>cp = length word, lp = 0\<rparr>"
    using single_word_segment[of ?c "[]"] assms(1)
    by (simp_all add: segment_def col_step_def breakLine_def)
  have "\<not> end_col start_state ?c" using assms(2) by (simp add: end_col_def start_state_def)
  then have "col_rounds ?c start_state = Suc (col_rounds ?c \<lparr>cp = length word, lp = 0\<rparr>)"
    by (subst col_rounds.simps) (simp add: s)
  also have "col_rounds ?c \<lparr>cp = length word, lp = 0\<rparr> = 0"
    by (simp add: col_rounds_zero end_col_def)
  finally show ?thesis
    by (simp add: single_column_output col_state_def s)
qed

lemma is_unconsumed_all_empty:
  "\<forall>c\<in>set cols. p c = [] \<Longrightarrow> \<not> is_unconsumed state cols"
  by (auto simp: is_unconsumed_def list_ex_iff end_col_def)

lemma col_rounds_funpow:
  "col_rounds c ((col_step c ^^ m) state) = col_rounds c state - m"
  by (induction m) (simp_all add: col_rounds_step)

lemma col_rounds_line: "m < col_rounds c start_state \<longleftrightarrow> \<not> end_col (col_state c m) c"
  using col_rounds_zero[of c "col_state c m"] col_rounds_funpow[of c m start_state]
  by (auto simp: col_state_def)

lemma max_list_ge: "x \<in> set xs \<Longrightarrow> f x \<le> max_list (map f xs)"
  by (induction xs) (auto simp: max_list_def)

lemma word_on_line:
  assumes "\<forall>j\<in>{a..<b}. j < length (p c) \<and> \<not> is_break (p c ! j)" "a < b"
  shows "\<exists>m<col_rounds c start_state. seg_start c m \<le> a \<and> b \<le> seg_end c m"
  using word_on_one_line[OF assms] by (simp add: col_rounds_line)

lemma columns_output:
  assumes "widths_ok fill cols"
  shows "tabulate os sep fill cols =
    Some (os @ concat (map (\<lambda>m. spec_line sep fill cols (map (\<lambda>d. col_state d m) cols) @ [newline])
                         [0..<max_list (map (\<lambda>d. col_rounds d start_state) cols)]))"
  by (simp add: tabulate_closed[OF assms] out_lines_def comp_def)

subsection \<open>Facts about the example columns\<close>

lemma emit_wide: "emit_col os start_state wide_a = (os @ ''a'', \<lparr>cp = 1, lp = 1\<rparr>)"
proof -
  have "emits start_state wide_a"
    by (simp add: emits_def end_col_def start_state_def wide_a_def char_at_def linebreak_def
        NUL_def newline_def isws_def tab_def)
  then have "emit_col os start_state wide_a = emit_col (os @ ''a'') \<lparr>cp = 1, lp = 1\<rparr> wide_a"
    by (simp add: emit_col_emits start_state_def char_at_def wide_a_def)
  also have "\<dots> = (os @ ''a'', \<lparr>cp = 1, lp = 1\<rparr>)"
    by (rule emit_col_end) (simp add: end_col_def wide_a_def)
  finally show ?thesis .
qed

lemma switch_col_wide: "i \<le> SIZE_MAX \<Longrightarrow> i mod 8 \<noteq> 7 \<Longrightarrow>
  switch_col os \<lparr>cp = k, lp = i\<rparr> SIZE_MAX tab sep = None"
  by (simp add: switch_col_def switch_col_loop_None)

lemma one_le_SIZE_MAX: "Suc 0 \<le> SIZE_MAX"
  by (simp add: SIZE_MAX_def)

lemma widths_ok_single: "widths_ok fill [c]"
  by (simp add: widths_ok_def)

lemma widths_ok_scenario1: "widths_ok (CHR '' '') [scenario1_a, scenario1_b]"
  by (simp add: widths_ok_def fill_ok_def switch_inc_def SIZE_MAX_def scenario1_a_def tab_def)

lemma widths_ok_one: "widths_ok (CHR '' '') [one_a, one_b]"
  by (simp add: widths_ok_def fill_ok_def switch_inc_def SIZE_MAX_def one_a_def tab_def)

section \<open>The claims\<close>

subsection \<open>C1: the line-break decision\<close>

text \<open>
  Claim C1, as stated for every column, fails on a text that holds a NUL character:
  \<^verbatim>\<open>nextWordFits\<close> stops its scan at the NUL as at the end of the text, while the
  reference algorithm scans on to the end of the text. After \<open>a\<close> and the blank of the
  text \<open>a b\<close>, NUL, \<open>cd\<close> at width 4, the program sees a word of one character that fits,
  the reference algorithm a word of four characters that does not.
\<close>

theorem linebreak_nul_counterexample:
  "\<not> linebreak \<lparr>cp = 2, lp = 1\<rparr> (CHR '' '') nul_text \<and>
   spec_would_break (p nul_text) (width nul_text) 2 1 (CHR '' '')"
  by code_simp

text \<open>
  Claim C1, amended: for every column whose text holds no NUL character (every text
  given as a C string), every cursor and every character, \<^verbatim>\<open>linebreak\<close> is the decision
  of the reference algorithm.
\<close>

theorem linebreak_spec:
  "NUL \<notin> set (p c) \<Longrightarrow>
   linebreak state ch c = spec_would_break (p c) (width c) (cp state) (lp state) ch"
  by (simp add: linebreak_def spec_would_break_def nextWordFits_def nextWordFits_loop_spec)

theorem linebreak_spec_witness:
  "NUL \<notin> set (p scenario1_a) \<and>
   linebreak \<lparr>cp = 4, lp = 3\<rparr> (CHR '' '') scenario1_a \<and>
   spec_would_break (p scenario1_a) (width scenario1_a) 4 3 (CHR '' '')"
proof -
  have n: "NUL \<notin> set (p scenario1_a)" by code_simp
  have "spec_would_break (p scenario1_a) (width scenario1_a) 4 3 (CHR '' '')" by code_simp
  with linebreak_spec[OF n, of "\<lparr>cp = 4, lp = 3\<rparr>" "CHR '' ''"] n show ?thesis by simp
qed

subsection \<open>C2: termination\<close>

text \<open>
  Claim C2 fails on the code: with a tab as fill character and a width of \<open>SIZE_MAX\<close>
  the counter of \<^verbatim>\<open>switch_col\<close>, which starts at 1 after the text \<open>a\<close> and advances by 8
  modulo \<open>2 ^ 64\<close>, never reaches the width, so \<^verbatim>\<open>tabulate(os, "|", '\t',
  column{"a", SIZE_MAX}, column{"b", 1})\<close> does not return.
\<close>

theorem tabulate_wraps_never_returns:
  "tabulate os ''|'' tab [wide_a, narrow_b] = None"
proof -
  have sw: "switch_col (os @ ''a'') \<lparr>cp = Suc 0, lp = Suc 0\<rparr> (width wide_a) tab ''|'' = None"
    using switch_col_wide[OF one_le_SIZE_MAX] by (simp add: wide_a_def)
  have "line_loop os ''|'' tab [wide_a, narrow_b] 0 [start_state, start_state] = None"
    using sw by (subst line_loop.simps) (simp add: emit_wide)
  then have "tab_round os ''|'' tab [wide_a, narrow_b] [start_state, start_state] = None"
    by (simp add: tab_round_def)
  moreover have "is_unconsumed [start_state, start_state] [wide_a, narrow_b]"
    by (simp add: is_unconsumed_def end_col_def start_state_def wide_a_def)
  ultimately show ?thesis
    by (simp add: tabulate_def tab_loop.simps numeral_2_eq_2)
qed

subsection \<open>C3: the length of a segment\<close>

text \<open>
  Claim C3, as stated, fails: a word longer than the width is emitted whole, so the
  segment \<open>abcdef\<close> of a column of width 3 has six characters.
\<close>

theorem segment_overflow_counterexample:
  "line_pos long_word (col_state long_word 0) = 6 \<and>
   \<not> line_pos long_word (col_state long_word 0) \<le> width long_word \<and>
   tabulate [] '' | '' (CHR '' '') [long_word] = Some (''abcdef'' @ [newline])"
proof -
  have "line_pos long_word (col_state long_word 0) = 6"
    "\<not> line_pos long_word (col_state long_word 0) \<le> width long_word"
    by code_simp+
  moreover have "out_lines '' | '' (CHR '' '') [long_word] = [''abcdef'']"
    by code_simp
  ultimately show ?thesis
    by (simp add: tabulate_closed[OF widths_ok_single])
qed

text \<open>
  Claim C3, amended: on every line \<open>n\<close> the number of characters of a column's segment
  is at most the larger of the column's width and the length of the word the segment
  starts with; it exceeds the width only when the line starts with a word longer than
  the width. (Fill characters are not counted here.)
\<close>

theorem segment_bound:
  "line_pos c (col_state c n) \<le> max (width c) (word_length c (cp (col_state c n)))"
  using emit_col_bound[of "col_state c n" c
      "max (width c) (word_length c (cp (col_state c n)))" "[]"]
  by (simp add: line_pos_def col_state_lp)

subsection \<open>C4: words are not split\<close>

text \<open>
  Claim C4, as stated for every input and every run of non-blank characters, fails on a
  text that holds a NUL character: \<^verbatim>\<open>consume\<close> returns the NUL, which ends the loop of
  \<^verbatim>\<open>emit_col\<close> like the end of the text, so the run \<open>ab\<close>, NUL, \<open>cd\<close> (no blank and no
  line terminator in it) is written as \<open>ab\<close> on one line and \<open>cd\<close> on the next, the NUL
  being dropped.
\<close>

theorem word_split_at_nul_counterexample:
  "\<not> list_ex isws (p nul_word) \<and> newline \<notin> set (p nul_word) \<and>
   tabulate [] '' | '' (CHR '' '') [nul_word] = Some (''ab'' @ [newline] @ ''cd'' @ [newline])"
proof -
  have "\<not> list_ex isws (p nul_word)" "newline \<notin> set (p nul_word)"
    by code_simp+
  moreover have "out_lines '' | '' (CHR '' '') [nul_word] = [''ab'', ''cd'']"
    by code_simp
  ultimately show ?thesis
    by (simp add: tabulate_closed[OF widths_ok_single])
qed

text \<open>
  Claim C4, amended: a word is a run of characters none of which is a breaking character
  (blank, line terminator or NUL). The segments of a column follow one another in its
  text: the first starts at index 0, each is the slice of the text from \<open>seg_start c n\<close>
  up to \<open>seg_end c n\<close>, and the next starts right after the one character dropped at
  \<open>seg_end c n\<close>, a breaking character. Every word, at the indices \<open>a..<b\<close>, whatever its
  length and so also when it is longer than the width, lies whole in the segment of one
  of the lines \<open>m\<close> the column has, and on every line \<open>n\<close> it lies entirely inside the
  segment or entirely outside it. When the padding counter can reach the widths,
  \<^verbatim>\<open>tabulate\<close> returns and has written at least as many lines as the column has, line
  \<open>m\<close> holding for each column its segment of line \<open>m\<close> (with fill and separator when
  it is not the last). In particular a text that is one word, alone, is written on one
  line.
\<close>

theorem word_integrity:
  "(seg_start c 0 = 0 \<and>
    seg_start c (Suc n) = (if seg_end c n < length (p c) then seg_end c n + 1 else seg_end c n) \<and>
    (seg_end c n < length (p c) \<longrightarrow> is_break (p c ! seg_end c n))) \<and>
   segment c (col_state c n) =
     take (seg_end c n - seg_start c n) (drop (seg_start c n) (p c)) \<and>
   ((\<forall>j\<in>{a..<b}. j < length (p c) \<and> \<not> is_break (p c ! j)) \<longrightarrow> a < b \<longrightarrow>
      (\<exists>m<col_rounds c start_state. seg_start c m \<le> a \<and> b \<le> seg_end c m) \<and>
      (seg_start c n \<le> a \<and> b \<le> seg_end c n \<or> seg_end c n \<le> a \<or> b \<le> seg_start c n)) \<and>
   (widths_ok fill cols \<longrightarrow> c \<in> set cols \<longrightarrow>
      col_rounds c start_state \<le> max_list (map (\<lambda>d. col_rounds d start_state) cols) \<and>
      tabulate os sep fill cols =
        Some (os @ concat (map (\<lambda>m. spec_line sep fill cols (map (\<lambda>d. col_state d m) cols)
                                      @ [newline])
                             [0..<max_list (map (\<lambda>d. col_rounds d start_state) cols)]))) \<and>
   ((\<forall>ch\<in>set word. \<not> is_break ch) \<longrightarrow> word \<noteq> [] \<longrightarrow>
      tabulate os sep fill [\<lparr>p = word, width = w\<rparr>] = Some (os @ word @ [newline]))"
proof (intro conjI impI)
  show "seg_start c 0 = 0" by (simp add: seg_start_def col_state_def start_state_def)
  show "seg_start c (Suc n) =
      (if seg_end c n < length (p c) then seg_end c n + 1 else seg_end c n)"
    using seg_chain[of c n] by simp
  show "segment c (col_state c n) =
     take (seg_end c n - seg_start c n) (drop (seg_start c n) (p c))"
    using segment_slice[of c "col_state c n"] by (simp add: seg_end_def seg_start_def)
next
  assume "seg_end c n < length (p c)"
  then show "is_break (p c ! seg_end c n)" using seg_chain[of c n] by simp
next
  assume "\<forall>j\<in>{a..<b}. j < length (p c) \<and> \<not> is_break (p c ! j)" "a < b"
  then show "\<exists>m<col_rounds c start_state. seg_start c m \<le> a \<and> b \<le> seg_end c m"
    by (rule word_on_line)
next
  assume "\<forall>j\<in>{a..<b}. j < length (p c) \<and> \<not> is_break (p c ! j)"
  then show "seg_start c n \<le> a \<and> b \<le> seg_end c n \<or> seg_end c n \<le> a \<or> b \<le> seg_start c n"
    by (rule word_in_one_segment)
next
  assume "c \<in> set cols"
  then show "col_rounds c start_state \<le> max_list (map (\<lambda>d. col_rounds d start_state) cols)"
    by (rule max_list_ge)
next
  assume "widths_ok fill cols"
  then show "tabulate os sep fill cols =
        Some (os @ concat (map (\<lambda>m. spec_line sep fill cols (map (\<lambda>d. col_state d m) cols)
                                      @ [newline])
                             [0..<max_list (map (\<lambda>d. col_rounds d start_state) cols)]))"
    by (rule columns_output)
next
  assume "\<forall>ch\<in>set word. \<not> is_break ch" "word \<noteq> []"
  then show "tabulate os sep fill [\<lparr>p = word, width = w\<rparr>] = Some (os @ word @ [newline])"
    by (rule single_word_output)
qed

theorem word_integrity_witness:
  "seg_start scenario1_a (Suc 0) = 4 \<and> is_break (p scenario1_a ! 3) \<and>
   segment scenario1_a (col_state scenario1_a 0) = take (3 - 0) (drop 0 (p scenario1_a)) \<and>
   (\<exists>m<3. seg_start scenario1_a m \<le> 4 \<and> 7 \<le> seg_end scenario1_a m) \<and>
   seg_end scenario1_a 0 \<le> 4 \<and>
   tabulate ''x'' '' | '' (CHR '' '') [scenario1_a, scenario1_b] =
     Some (''xabc    | 123'' @ [newline] @ ''def    | 4432'' @ [newline] @
           ''ghi    | 17'' @ [newline] @ ''       | 8989'' @ [newline]) \<and>
   tabulate ''x'' '' | '' (CHR '' '') [long_word] = Some (''xabcdef'' @ [newline])"
proof -
  have h: "\<forall>ch\<in>set ''abcdef''. \<not> is_break ch" "''abcdef'' \<noteq> []"
    by (simp_all add: is_break_def NUL_def newline_def isws_def tab_def)
  have g: "\<forall>j\<in>{4..<7}. j < length (p scenario1_a) \<and> \<not> is_break (p scenario1_a ! j)"
    by code_simp
  have lt: "(4::nat) < 7" by simp
  have m: "scenario1_a \<in> set [scenario1_a, scenario1_b]" by simp
  have v: "seg_start scenario1_a 0 = 0" "seg_end scenario1_a 0 = 3"
    "length (p scenario1_a) = 11" "col_rounds scenario1_a start_state = 3"
    "max_list (map (\<lambda>d. col_rounds d start_state) [scenario1_a, scenario1_b]) = 4"
    by code_simp+
  have ls: "map (\<lambda>m. spec_line '' | '' (CHR '' '') [scenario1_a, scenario1_b]
                 (map (\<lambda>d. col_state d m) [scenario1_a, scenario1_b]) @ [newline]) [0..<4]
    = [''abc    | 123'' @ [newline], ''def    | 4432'' @ [newline],
       ''ghi    | 17'' @ [newline], ''       | 8989'' @ [newline]]"
    by code_simp
  from word_integrity[of scenario1_a 0 4 7 "CHR '' ''" "[scenario1_a, scenario1_b]"
      "''x''" "'' | ''" "''abcdef''" 3] h g lt m widths_ok_scenario1
  show ?thesis unfolding v ls by (simp add: long_word_def)
qed

subsection \<open>C5: fill and separator\<close>

text \<open>
  Claim C5 fails on the code: for the first column of \<^verbatim>\<open>tabulate(os, "|", '\t',
  column{"a", SIZE_MAX}, column{"b", 1})\<close> the padding loop of \<^verbatim>\<open>switch_col\<close> starts at
  line position 1 and steps by 8 modulo \<open>2 ^ 64\<close>; it never reaches the width, no
  separator is written and the line is never finished.
\<close>

theorem padding_wraps_never_returns:
  "emit_col os start_state wide_a = (os @ ''a'', \<lparr>cp = 1, lp = 1\<rparr>) \<and>
   switch_col (os @ ''a'') \<lparr>cp = 1, lp = 1\<rparr> (width wide_a) tab ''|'' = None \<and>
   line_loop os ''|'' tab [wide_a, narrow_b] 0 [start_state, start_state] = None"
proof -
  have sw: "switch_col (os @ ''a'') \<lparr>cp = Suc 0, lp = Suc 0\<rparr> (width wide_a) tab ''|'' = None"
    using switch_col_wide[OF one_le_SIZE_MAX] by (simp add: wide_a_def)
  have "line_loop os ''|'' tab [wide_a, narrow_b] 0 [start_state, start_state] = None"
    using sw by (subst line_loop.simps) (simp add: emit_wide)
  with sw show ?thesis by (simp add: emit_wide)
qed

subsection \<open>C6: the number of lines\<close>

text \<open>
  Claim C6, as stated, fails in two ways. A separator that holds a line terminator adds
  newline-terminated lines: with the separator \<open>"\n"\<close> two columns of one line each give
  two such lines in one round. And a NUL character inside a text ends a line in the
  code, not in the word wrapping of the specification: \<open>ab\<close>, NUL, \<open>cd\<close> at width 10 is
  written on two lines, while its word-wrapped line count is 1.
\<close>

theorem line_count_counterexample:
  "tabulate [] [newline] (CHR '' '') [one_a, one_b] =
     Some (''a'' @ [newline] @ ''b'' @ [newline]) \<and>
   spec_line_count (p one_a) (width one_a) 0 = 1 \<and>
   spec_line_count (p one_b) (width one_b) 0 = 1 \<and>
   tabulate [] '' | '' (CHR '' '') [nul_word] = Some (''ab'' @ [newline] @ ''cd'' @ [newline]) \<and>
   spec_line_count (p nul_word) (width nul_word) 0 = 1"
proof -
  have "out_lines [newline] (CHR '' '') [one_a, one_b] = [''a'' @ [newline] @ ''b'']"
    by code_simp
  then have "tabulate [] [newline] (CHR '' '') [one_a, one_b] =
      Some (''a'' @ [newline] @ ''b'' @ [newline])"
    by (simp add: tabulate_closed[OF widths_ok_one])
  moreover have "out_lines '' | '' (CHR '' '') [nul_word] = [''ab'', ''cd'']"
    by code_simp
  then have "tabulate [] '' | '' (CHR '' '') [nul_word] =
      Some (''ab'' @ [newline] @ ''cd'' @ [newline])"
    by (simp add: tabulate_closed[OF widths_ok_single])
  moreover have "spec_line_count (p one_a) (width one_a) 0 = 1"
    "spec_line_count (p one_b) (width one_b) 0 = 1"
    "spec_line_count (p nul_word) (width nul_word) 0 = 1"
    by code_simp+
  ultimately show ?thesis by simp
qed

text \<open>
  Claim C6, amended: when no text holds a NUL character, the separator holds no line
  terminator, the fill character is not one, and the padding counter can reach the
  width of every column before the last (any width, or at most \<open>SIZE_MAX - 7\<close> with a
  tab as fill), \<^verbatim>\<open>tabulate\<close> returns and has written finitely many lines, each without a
  line terminator inside and followed by one, and their number is the largest
  word-wrapped line count of a column, counted by the line emission of the
  specification (0 without columns).
\<close>

theorem tabulate_line_count:
  "\<forall>c\<in>set cols. NUL \<notin> set (p c) \<Longrightarrow> widths_ok fill cols \<Longrightarrow>
   newline \<notin> set sep \<Longrightarrow> fill \<noteq> newline \<Longrightarrow>
   \<exists>ls. tabulate os sep fill cols = Some (os @ concat (map (\<lambda>line. line @ [newline]) ls)) \<and>
        (\<forall>line\<in>set ls. newline \<notin> set line) \<and>
        length ls = max_list (map (\<lambda>c. spec_line_count (p c) (width c) 0) cols)"
  using tabulate_closed[of fill cols os sep] out_lines_no_newline[of sep fill cols]
    out_lines_reference[of cols sep fill]
  by (intro exI[of _ "out_lines sep fill cols"]) simp

theorem tabulate_line_count_witness:
  "max_list (map (\<lambda>c. spec_line_count (p c) (width c) 0) [scenario1_a, scenario1_b]) = 4 \<and>
   (\<exists>ls. tabulate ''x'' '' | '' (CHR '' '') [scenario1_a, scenario1_b] =
           Some (''x'' @ concat (map (\<lambda>line. line @ [newline]) ls)) \<and>
         list_all (\<lambda>line. newline \<notin> set line) ls \<and> length ls = 4)"
proof -
  have h: "\<forall>c\<in>set [scenario1_a, scenario1_b]. NUL \<notin> set (p c)"
    "newline \<notin> set '' | ''" "CHR '' '' \<noteq> newline"
    by (simp_all add: scenario1_a_def scenario1_b_def NUL_def newline_def)
  have m: "max_list (map (\<lambda>c. spec_line_count (p c) (width c) 0) [scenario1_a, scenario1_b]) = 4"
    by code_simp
  from tabulate_line_count[OF h(1) widths_ok_scenario1 h(2) h(3), of "''x''"] show ?thesis
    unfolding m by (simp add: list_all_iff)
qed

subsection \<open>C7: exhausted columns\<close>

text \<open>
  Claim C7 fails on the code: the column \<^verbatim>\<open>column{"", SIZE_MAX}\<close> is exhausted from the
  start and \<^verbatim>\<open>emit_col\<close> writes nothing for it and leaves its cursor as it is, but with
  a tab as fill character its padding, from line position 0 in steps of 8 modulo
  \<open>2 ^ 64\<close>, never reaches the width: \<^verbatim>\<open>tabulate(os, "|", '\t', column{"", SIZE_MAX},
  column{"b", 1})\<close> never finishes the first line, so the two columns do not end on a
  common last line.
\<close>

theorem exhausted_wide_never_returns:
  "end_col start_state wide_empty \<and>
   emit_col os start_state wide_empty = (os, start_state) \<and>
   tabulate os ''|'' tab [wide_empty, narrow_b] = None"
proof -
  have e: "end_col start_state wide_empty"
    by (simp add: end_col_def wide_empty_def)
  then have em: "emit_col os start_state wide_empty = (os, start_state)"
    by (rule emit_col_end)
  have sw: "switch_col os start_state (width wide_empty) tab ''|'' = None"
    using switch_col_wide[of 0 os 0 "''|''"] by (simp add: wide_empty_def start_state_def)
  have "line_loop os ''|'' tab [wide_empty, narrow_b] 0 [start_state, start_state] = None"
    using sw by (subst line_loop.simps) (simp add: em)
  then have "tab_round os ''|'' tab [wide_empty, narrow_b] [start_state, start_state] = None"
    by (simp add: tab_round_def)
  moreover have "is_unconsumed [start_state, start_state] [wide_empty, narrow_b]"
    by (simp add: is_unconsumed_def end_col_def start_state_def narrow_b_def)
  ultimately have "tabulate os ''|'' tab [wide_empty, narrow_b] = None"
    by (simp add: tabulate_def tab_loop.simps numeral_2_eq_2)
  with e em show ?thesis by simp
qed

subsection \<open>C8: the documented example\<close>

text \<open>
  Claim C8, as stated, fails: at width 6 the first line of the first column is
  \<open>abc\<close>, not \<open>abc def\<close> (seven characters).
\<close>

theorem scenario1_first_segment_counterexample:
  "segment scenario1_a start_state = ''abc'' \<and>
   segment scenario1_a start_state \<noteq> ''abc def''"
  by code_simp

text \<open>
  Claim C8, amended: for \<^verbatim>\<open>tabulate(out, " | ", ' ', column("abc def ghi", 6),
  column("123 4432 17 8989", 4))\<close> the successive line segments of the first column are
  \<open>abc\<close>, \<open>def\<close>, \<open>ghi\<close> and the empty segment, those of the second column are \<open>123\<close>
  (the word \<open>4432\<close> does not fit after it), \<open>4432\<close>, \<open>17\<close> and \<open>8989\<close>, and the output is
  the four lines below. The output is a function of the arguments, so two runs on the
  same input write the same characters.
\<close>

theorem scenario1_output:
  "map (\<lambda>n. segment scenario1_a ((col_step scenario1_a ^^ n) start_state)) [0, 1, 2, 3]
     = [''abc'', ''def'', ''ghi'', []] \<and>
   map (\<lambda>n. segment scenario1_b ((col_step scenario1_b ^^ n) start_state)) [0, 1, 2, 3]
     = [''123'', ''4432'', ''17'', ''8989''] \<and>
   tabulate os '' | '' (CHR '' '') [scenario1_a, scenario1_b] =
     Some (os @ ''abc    | 123'' @ [newline] @ ''def    | 4432'' @ [newline] @
          ''ghi    | 17'' @ [newline] @ ''       | 8989'' @ [newline])"
proof -
  have "widths_ok (CHR '' '') [scenario1_a, scenario1_b]" by (rule widths_ok_scenario1)
  moreover have "out_lines '' | '' (CHR '' '') [scenario1_a, scenario1_b] =
     [''abc    | 123'', ''def    | 4432'', ''ghi    | 17'', ''       | 8989'']"
    by code_simp
  moreover have "map (\<lambda>n. segment scenario1_a ((col_step scenario1_a ^^ n) start_state))
      [0, 1, 2, 3] = [''abc'', ''def'', ''ghi'', []]"
    by code_simp
  moreover have "map (\<lambda>n. segment scenario1_b ((col_step scenario1_b ^^ n) start_state))
      [0, 1, 2, 3] = [''123'', ''4432'', ''17'', ''8989'']"
    by code_simp
  ultimately show ?thesis
    by (simp add: tabulate_closed)
qed

subsection \<open>C9: the overloads\<close>

text \<open>
  Claim C9: the overload without a fill character writes what the full form writes with
  a space as fill, and the overload without separator and fill writes what the full form
  writes with the separator \<open>" "\<close> and a space as fill.
\<close>

theorem tabulate_overloads:
  "tabulate_sep os sep cols = tabulate os sep (CHR '' '') cols \<and>
   tabulate_default os cols = tabulate os '' '' (CHR '' '') cols"
  by (simp add: tabulate_sep_def tabulate_default_def)

subsection \<open>C10: columns with empty texts\<close>

text \<open>
  Claim C10: when the text of every column is empty, \<^verbatim>\<open>tabulate\<close> writes nothing, not
  even a line terminator: the stream is returned as it was.
\<close>

theorem tabulate_all_empty:
  "\<forall>c\<in>set cols. p c = [] \<Longrightarrow> tabulate os sep fill cols = Some os"
  by (simp add: tabulate_def tab_loop.simps is_unconsumed_all_empty)

theorem tabulate_all_empty_witness:
  "tabulate ''x'' '' | '' (CHR '' '') [\<lparr>p = [], width = 3\<rparr>, \<lparr>p = [], width = 5\<rparr>] = Some ''x''"
  by (rule tabulate_all_empty) simp

end
